theory Spec2Isabelle
  imports Main "HOL-Library.Word"
begin

section \<open>JavaScript strings\<close>

text \<open>
  A JavaScript string is a sequence of 16-bit code units; \<open>text[i]\<close> and
  \<open>charCodeAt\<close> read one unit, \<open>String.fromCharCode\<close> builds one from a number
  (reduced modulo \<open>2 ^ 16\<close>). The literals of \<open>decoder.js\<close> are all ASCII, so they are
  written as HOL string literals and converted with \<open>js\<close>.
\<close>

type_synonym jschar = "16 word"
type_synonym jsstring = "jschar list"

definition js :: "string \<Rightarrow> jsstring" where
  "js s = map (\<lambda>c. of_nat (of_char c)) s"

abbreviation chr_nl :: jschar where "chr_nl \<equiv> 10"
abbreviation chr_sp :: jschar where "chr_sp \<equiv> 32"
abbreviation chr_slash :: jschar where "chr_slash \<equiv> 47"
abbreviation chr_qm :: jschar where "chr_qm \<equiv> 63"

text \<open>\<open>ch.charCodeAt(0)\<close> for a one-unit string.\<close>

definition charCodeAt0 :: "jschar \<Rightarrow> nat" where
  "charCodeAt0 c = unat c"

text \<open>
  \<open>String.fromCharCode(x)\<close>: the argument goes through ToNumber and ToUint16. \<open>None\<close>
  stands for an argument whose ToNumber is NaN, which ToUint16 sends to 0.
\<close>

definition fromCharCode :: "nat option \<Rightarrow> jschar" where
  "fromCharCode x = (case x of None \<Rightarrow> 0 | Some n \<Rightarrow> of_nat n)"

text \<open>The test \<open>/[A-Za-z]/.test(ch)\<close> on a one-unit string.\<close>

definition isLetter :: "jschar \<Rightarrow> bool" where
  "isLetter c = (let n = unat c in (65 \<le> n \<and> n \<le> 90) \<or> (97 \<le> n \<and> n \<le> 122))"

text \<open>
  \<open>toUpperCase\<close> on one code unit. It agrees with \<open>String.prototype.toUpperCase\<close> on
  the ASCII range, which holds every argument \<open>decoder.js\<close> passes (the call is guarded
  by the letter test).
\<close>

definition toUpperCase :: "jschar \<Rightarrow> jschar" where
  "toUpperCase c = (let n = unat c in if 97 \<le> n \<and> n \<le> 122 then of_nat (n - 32) else c)"

text \<open>
  White space as \<open>String.prototype.trim\<close> and the regular expression class \<open>\s\<close>
  see it: the WhiteSpace and LineTerminator code points of ECMAScript.
\<close>

definition isWhite :: "jschar \<Rightarrow> bool" where
  "isWhite c = (let n = unat c in
     (9 \<le> n \<and> n \<le> 13) \<or> n = 32 \<or> n = 160 \<or> n = 5760 \<or> (8192 \<le> n \<and> n \<le> 8202) \<or>
     n = 8232 \<or> n = 8233 \<or> n = 8239 \<or> n = 8287 \<or> n = 12288 \<or> n = 65279)"

definition trim :: "jsstring \<Rightarrow> jsstring" where
  "trim s = rev (dropWhile isWhite (rev (dropWhile isWhite s)))"

text \<open>
  \<open>s.split('\n')\<close>: the pieces between the newline units; an empty string gives one
  empty piece.
\<close>

fun split_nl :: "jsstring \<Rightarrow> jsstring list" where
  "split_nl [] = [[]]"
| "split_nl (c # cs) =
     (if c = chr_nl then [] # split_nl cs
      else (case split_nl cs of [] \<Rightarrow> [[c]] | l # ls \<Rightarrow> (c # l) # ls))"

text \<open>
  \<open>s.split(/\s+/)\<close>: the pieces between the maximal runs of white space. A run at the
  start or at the end leaves an empty piece there, and an empty string gives one empty
  piece.
\<close>

function split_ws :: "jsstring \<Rightarrow> jsstring list" where
  "split_ws [] = [[]]"
| "split_ws (c # cs) =
     (if isWhite c then [] # split_ws (dropWhile isWhite cs)
      else (case split_ws cs of [] \<Rightarrow> [[c]] | l # ls \<Rightarrow> (c # l) # ls))"
  by pat_completeness auto
termination
  by (relation "measure length") (auto simp: length_dropWhile_le less_Suc_eq_le)

text \<open>\<open>arr[i]\<close>: \<open>None\<close> is \<open>undefined\<close>, the value of a read past the end.\<close>

definition at :: "'a list \<Rightarrow> nat \<Rightarrow> 'a option" where
  "at xs i = (if i < length xs then Some (xs ! i) else None)"

text \<open>\<open>!tok\<close> for a value that is a string or \<open>undefined\<close>.\<close>

definition falsy :: "jsstring option \<Rightarrow> bool" where
  "falsy t = (case t of None \<Rightarrow> True | Some s \<Rightarrow> s = [])"

text \<open>
  \<open>arr.join(sep)\<close> on an array of strings and \<open>undefined\<close> entries: an \<open>undefined\<close>
  entry is joined as the empty string.
\<close>

fun join :: "jsstring \<Rightarrow> jsstring option list \<Rightarrow> jsstring" where
  "join sep [] = []"
| "join sep [x] = (case x of None \<Rightarrow> [] | Some s \<Rightarrow> s)"
| "join sep (x # y # ys) = (case x of None \<Rightarrow> [] | Some s \<Rightarrow> s) @ sep @ join sep (y # ys)"

section \<open>The cipher configuration\<close>

text \<open>
  The fields \<open>notes\<close> and \<open>colors\<close> of a configuration object (\<open>notes\<close> is a
  reserved word of the proof language, hence the prefix). The codec reads only the notes.
\<close>

record CipherConfig =
  config_notes :: "jsstring list"
  config_colors :: "(jsstring \<times> jsstring) list"

section \<open>encodeBase8\<close>

text \<open>The digit characters: \<open>'0'\<close> is the unit 48.\<close>

definition digit_char :: "nat \<Rightarrow> jschar" where
  "digit_char d = of_nat (48 + d)"

text \<open>\<open>n.toString(8)\<close> for a non-negative integer.\<close>

fun toString8 :: "nat \<Rightarrow> jsstring" where
  "toString8 n =
     (if n < 8 then [digit_char n] else toString8 (n div 8) @ [digit_char (n mod 8)])"

declare toString8.simps [simp del]

text \<open>\<open>s.padStart(3, '0')\<close>.\<close>

definition padStart3 :: "jsstring \<Rightarrow> jsstring" where
  "padStart3 s = replicate (3 - length s) 48 @ s"

text \<open>
  \<open>parseInt(x, 8)\<close> where \<open>x\<close> is one unit of the octal string or \<open>undefined\<close>.
  \<open>None\<close> is NaN: \<open>undefined\<close> is read as the text "undefined", which starts with no
  octal digit.
\<close>

definition parseInt8 :: "jschar option \<Rightarrow> nat option" where
  "parseInt8 x =
     (case x of None \<Rightarrow> None
      | Some c \<Rightarrow> (if 48 \<le> unat c \<and> unat c \<le> 55 then Some (unat c - 48) else None))"

text \<open>
  \<open>config.notes[k]\<close> where \<open>k\<close> is a number or NaN. NaN is the property name "NaN",
  which an array does not have.
\<close>

definition note_at :: "jsstring list \<Rightarrow> nat option \<Rightarrow> jsstring option" where
  "note_at ns k = (case k of None \<Rightarrow> None | Some i \<Rightarrow> at ns i)"

text \<open>
  The inner loop \<open>for (let j = 0; j < oct.length; j += 2)\<close>; \<open>acc\<close> is the array
  \<open>notes\<close> being filled.
\<close>

function octal_loop ::
  "CipherConfig \<Rightarrow> jsstring \<Rightarrow> nat \<Rightarrow> jsstring option list \<Rightarrow> jsstring option list" where
  "octal_loop config oct j acc =
     (if j < length oct then
        (let hi = parseInt8 (at oct j);
             lo = parseInt8 (at oct (j + 1))
         in octal_loop config oct (j + 2)
              (acc @ [note_at (config_notes config) hi, note_at (config_notes config) lo]))
      else acc)"
  by pat_completeness auto
termination
  by (relation "measure (\<lambda>(config, oct, j, acc). length oct - j)") auto

declare octal_loop.simps [simp del]

text \<open>The body of the outer loop for one unit \<open>ch\<close> of the text.\<close>

definition encode_char :: "CipherConfig \<Rightarrow> jschar \<Rightarrow> jsstring option list \<Rightarrow> jsstring option list" where
  "encode_char config ch acc =
     (if ch = chr_sp then acc @ [Some (js ''/'')]
      else if ch = chr_nl then acc @ [Some [chr_nl]]
      else if isLetter ch then
        (let idx = int (charCodeAt0 (toUpperCase ch)) - 65 in
         if idx \<ge> 0 \<and> idx < 26 then
           (let hi = nat (idx div 8); lo = nat (idx mod 8)
            in acc @ [at (config_notes config) hi, at (config_notes config) lo])
         else acc)
      else
        (let code = charCodeAt0 ch;
             oct = padStart3 (toString8 code)
         in octal_loop config oct 0 acc))"

fun encode_loop :: "CipherConfig \<Rightarrow> jsstring \<Rightarrow> jsstring option list \<Rightarrow> jsstring option list" where
  "encode_loop config [] acc = acc"
| "encode_loop config (ch # rest) acc = encode_loop config rest (encode_char config ch acc)"

definition encodeBase8 :: "CipherConfig \<Rightarrow> jsstring \<Rightarrow> jsstring option list" where
  "encodeBase8 config text = encode_loop config text []"

section \<open>The note map\<close>

text \<open>
  Both decoders build \<open>noteMap\<close> as a plain object: \<open>const noteMap = {}\<close>, then
  \<open>noteMap[note] = i\<close> for every note. A read \<open>noteMap[tok]\<close> finds an own property
  first and falls back to \<open>Object.prototype\<close>, whose property names are listed below;
  what it finds there is a function (an object for \<open>__proto__\<close>), never a number and
  never \<open>undefined\<close>.
\<close>

datatype jsval = Num nat | Inherited

definition objectPrototypeKeys :: "jsstring list" where
  "objectPrototypeKeys = map js
     [''constructor'', ''hasOwnProperty'', ''isPrototypeOf'', ''propertyIsEnumerable'',
      ''toLocaleString'', ''toString'', ''valueOf'', ''__proto__'',
      ''__defineGetter__'', ''__defineSetter__'', ''__lookupGetter__'', ''__lookupSetter__'']"

text \<open>
  \<open>config.notes.forEach((note, i) => { noteMap[note] = i; })\<close>, on the own properties.
  The assignment to \<open>__proto__\<close> runs the setter of \<open>Object.prototype\<close>, which ignores a
  number: it creates no own property.
\<close>

fun noteMap_fill :: "jsstring list \<Rightarrow> nat \<Rightarrow> (jsstring \<rightharpoonup> nat) \<Rightarrow> (jsstring \<rightharpoonup> nat)" where
  "noteMap_fill [] i own = own"
| "noteMap_fill (note # rest) i own =
     noteMap_fill rest (Suc i) (if note = js ''__proto__'' then own else own(note \<mapsto> i))"

definition noteMap :: "CipherConfig \<Rightarrow> (jsstring \<rightharpoonup> nat)" where
  "noteMap config = noteMap_fill (config_notes config) 0 Map.empty"

text \<open>
  The read \<open>noteMap[tok]\<close>; \<open>None\<close> is \<open>undefined\<close>. An \<open>undefined\<close> token is the
  property name "undefined".
\<close>

definition lookup_key :: "(jsstring \<rightharpoonup> nat) \<Rightarrow> jsstring \<Rightarrow> jsval option" where
  "lookup_key own k =
     (case own k of
        Some i \<Rightarrow> Some (Num i)
      | None \<Rightarrow> (if k \<in> set objectPrototypeKeys then Some Inherited else None))"

definition lookup :: "(jsstring \<rightharpoonup> nat) \<Rightarrow> jsstring option \<Rightarrow> jsval option" where
  "lookup own tok =
     (case tok of None \<Rightarrow> lookup_key own (js ''undefined'') | Some k \<Rightarrow> lookup_key own k)"

text \<open>
  \<open>noteMap[hiTok] * b + noteMap[loTok]\<close> for two values that are not \<open>undefined\<close>. With
  an inherited value the product is NaN and the sum is NaN or a string that is no numeral;
  \<open>None\<close> stands for both: a value whose ToNumber is NaN, so every comparison with it is
  false.
\<close>

definition pair_value :: "nat \<Rightarrow> jsval \<Rightarrow> jsval \<Rightarrow> nat option" where
  "pair_value b hi lo =
     (case hi of
        Num h \<Rightarrow> (case lo of Num l \<Rightarrow> Some (h * b + l) | Inherited \<Rightarrow> None)
      | Inherited \<Rightarrow> None)"

section \<open>decodeBase12\<close>

text \<open>
  The loop \<open>for (let i = 0; i < tokens.length; i += 2)\<close>: \<open>continue\<close> goes on with
  \<open>i + 2\<close>.
\<close>

function walk12 ::
  "CipherConfig \<Rightarrow> (jsstring \<rightharpoonup> nat) \<Rightarrow> jsstring list \<Rightarrow> nat \<Rightarrow> jsstring \<Rightarrow> jsstring" where
  "walk12 config own tokens i out =
     (if i < length tokens then
        (let hiTok = at tokens i; loTok = at tokens (i + 1) in
         if falsy hiTok \<or> falsy loTok then walk12 config own tokens (i + 2) (out @ [chr_qm])
         else
           (case (lookup own hiTok, lookup own loTok) of
              (Some h, Some l) \<Rightarrow>
                (let code = pair_value (length (config_notes config)) h l
                 in walk12 config own tokens (i + 2) (out @ [fromCharCode code]))
            | _ \<Rightarrow> walk12 config own tokens (i + 2) (out @ [chr_qm])))
      else out)"
  by pat_completeness auto
termination
  by (relation "measure (\<lambda>(config, own, tokens, i, out). length tokens - i)") auto

declare walk12.simps [simp del]

text \<open>The body of \<open>lines.forEach((line, li) => ...)\<close>.\<close>

definition line12 ::
  "CipherConfig \<Rightarrow> (jsstring \<rightharpoonup> nat) \<Rightarrow> jsstring \<Rightarrow> nat \<Rightarrow> jsstring \<Rightarrow> jsstring" where
  "line12 config own line li out =
     (let out1 = (if li > 0 then out @ [chr_nl] else out);
          tokens = split_ws (trim line)
      in walk12 config own tokens 0 out1)"

fun lines12 ::
  "CipherConfig \<Rightarrow> (jsstring \<rightharpoonup> nat) \<Rightarrow> jsstring list \<Rightarrow> nat \<Rightarrow> jsstring \<Rightarrow> jsstring" where
  "lines12 config own [] li out = out"
| "lines12 config own (line # rest) li out =
     lines12 config own rest (Suc li) (line12 config own line li out)"

definition decodeBase12 :: "CipherConfig \<Rightarrow> jsstring \<Rightarrow> jsstring" where
  "decodeBase12 config noteStr =
     (let own = noteMap config;
          lines = split_nl (trim noteStr)
      in lines12 config own lines 0 [])"

section \<open>decodeBase8\<close>

text \<open>
  The loop \<open>for (let i = 0; i < tokens.length;)\<close>: the body moves \<open>i\<close> itself, and
  \<open>break\<close> leaves the loop with the output so far.
\<close>

function walk8 :: "(jsstring \<rightharpoonup> nat) \<Rightarrow> jsstring list \<Rightarrow> nat \<Rightarrow> jsstring \<Rightarrow> jsstring" where
  "walk8 own tokens i out =
     (if i < length tokens then
        (if at tokens i = Some (js ''/'') then walk8 own tokens (i + 1) (out @ [chr_sp])
         else
           (let hiTok = at tokens i; loTok = at tokens (i + 1) in
            if falsy hiTok \<or> falsy loTok then out @ [chr_qm]
            else
              (case (lookup own hiTok, lookup own loTok) of
                 (Some h, Some l) \<Rightarrow>
                   (case pair_value 8 h l of
                      Some val \<Rightarrow>
                        (if val \<ge> 0 \<and> val < 26
                         then walk8 own tokens (i + 2) (out @ [fromCharCode (Some (65 + val))])
                         else walk8 own tokens (i + 2) (out @ [chr_qm]))
                    | None \<Rightarrow> walk8 own tokens (i + 2) (out @ [chr_qm]))
               | _ \<Rightarrow> walk8 own tokens (i + 2) (out @ [chr_qm]))))
      else out)"
  by pat_completeness auto
termination
  by (relation "measure (\<lambda>(own, tokens, i, out). length tokens - i)") auto

declare walk8.simps [simp del]

text \<open>\<open>line.trim().split(/\s+/).filter(t => t.length > 0)\<close>.\<close>

definition tokens8 :: "jsstring \<Rightarrow> jsstring list" where
  "tokens8 line = filter (\<lambda>t. length t > 0) (split_ws (trim line))"

text \<open>The body of \<open>lines.forEach((line, li) => ...)\<close>.\<close>

definition line8 :: "(jsstring \<rightharpoonup> nat) \<Rightarrow> jsstring \<Rightarrow> nat \<Rightarrow> jsstring \<Rightarrow> jsstring" where
  "line8 own line li out =
     (let out1 = (if li > 0 then out @ [chr_nl] else out);
          tokens = tokens8 line
      in walk8 own tokens 0 out1)"

fun lines8 :: "(jsstring \<rightharpoonup> nat) \<Rightarrow> jsstring list \<Rightarrow> nat \<Rightarrow> jsstring \<Rightarrow> jsstring" where
  "lines8 own [] li out = out"
| "lines8 own (line # rest) li out = lines8 own rest (Suc li) (line8 own line li out)"

definition decodeBase8 :: "CipherConfig \<Rightarrow> jsstring \<Rightarrow> jsstring" where
  "decodeBase8 config noteStr =
     (let own = noteMap config;
          lines = split_nl noteStr
      in lines8 own lines 0 [])"

section \<open>The token walks as recursions over the remaining tokens\<close>

text \<open>
  What one pair of tokens, both present and non-empty, adds to the output of
  \<open>decodeBase8\<close>: the three branches after the test for a missing token.
\<close>

definition pair8 :: "(jsstring \<rightharpoonup> nat) \<Rightarrow> jsstring \<Rightarrow> jsstring \<Rightarrow> jschar" where
  "pair8 own hiTok loTok =
     (case (lookup own (Some hiTok), lookup own (Some loTok)) of
        (Some h, Some l) \<Rightarrow>
          (case pair_value 8 h l of
             Some val \<Rightarrow> (if val < 26 then fromCharCode (Some (65 + val)) else chr_qm)
           | None \<Rightarrow> chr_qm)
      | _ \<Rightarrow> chr_qm)"

text \<open>
  The output of the loop of \<open>decodeBase8\<close> from the tokens that are left: this is
  \<open>walk8\<close> seen from the position \<open>i\<close>, as \<open>walk8_dec8\<close> shows.
\<close>

fun dec8 :: "(jsstring \<rightharpoonup> nat) \<Rightarrow> jsstring list \<Rightarrow> jsstring" where
  "dec8 own [] = []"
| "dec8 own [t] = (if t = js ''/'' then [chr_sp] else [chr_qm])"
| "dec8 own (t # u # rest) =
     (if t = js ''/'' then chr_sp # dec8 own (u # rest)
      else if t = [] \<or> u = [] then [chr_qm]
      else pair8 own t u # dec8 own rest)"

text \<open>The same for one pair and for the loop of \<open>decodeBase12\<close>.\<close>

definition pair12 :: "CipherConfig \<Rightarrow> (jsstring \<rightharpoonup> nat) \<Rightarrow> jsstring \<Rightarrow> jsstring \<Rightarrow> jschar" where
  "pair12 config own hiTok loTok =
     (case (lookup own (Some hiTok), lookup own (Some loTok)) of
        (Some h, Some l) \<Rightarrow> fromCharCode (pair_value (length (config_notes config)) h l)
      | _ \<Rightarrow> chr_qm)"

fun dec12 :: "CipherConfig \<Rightarrow> (jsstring \<rightharpoonup> nat) \<Rightarrow> jsstring list \<Rightarrow> jsstring" where
  "dec12 config own [] = []"
| "dec12 config own [t] = [chr_qm]"
| "dec12 config own (t # u # rest) =
     (if t = [] \<or> u = [] then chr_qm # dec12 config own rest
      else pair12 config own t u # dec12 config own rest)"

section \<open>Configurations used as examples\<close>

text \<open>The seven note names of the scale and an eighth one, so that base 8 has its digits.\<close>

definition scale_config :: CipherConfig where
  "scale_config =
     \<lparr>config_notes = map js [''C'', ''D'', ''E'', ''F'', ''G'', ''A'', ''B'', ''H''],
      config_colors = []\<rparr>"

text \<open>A configuration whose first note is the token that the base-8 codec keeps for a space.\<close>

definition slash_config :: CipherConfig where
  "slash_config =
     \<lparr>config_notes = map js [''/'', ''D'', ''E'', ''F'', ''G'', ''A'', ''B'', ''H''],
      config_colors = []\<rparr>"

text \<open>A configuration of two notes, the first of which is written with a space.\<close>

definition spaced_config :: CipherConfig where
  "spaced_config = \<lparr>config_notes = map js [''C sharp'', ''D''], config_colors = []\<rparr>"

section \<open>Notes that survive as tokens\<close>

text \<open>
  A string comes back as one token from \<open>split(/\s+/)\<close> when it is not empty and holds
  no white space. As a note it is found again by the read \<open>noteMap[tok]\<close> unless it is
  \<open>__proto__\<close>, and by \<open>decodeBase8\<close> unless it is also the token \<open>/\<close>.
\<close>

definition plain_token :: "jsstring \<Rightarrow> bool" where
  "plain_token t = (t \<noteq> [] \<and> list_all (\<lambda>c. \<not> isWhite c) t)"

definition usable_note :: "jsstring \<Rightarrow> bool" where
  "usable_note t = (plain_token t \<and> t \<noteq> js ''__proto__'')"

definition usable_note8 :: "jsstring \<Rightarrow> bool" where
  "usable_note8 t = (usable_note t \<and> t \<noteq> js ''/'')"

text \<open>The index \<open>idx\<close> that the encoder computes for a letter, as a natural number.\<close>

definition letter_index :: "jschar \<Rightarrow> nat" where
  "letter_index c = charCodeAt0 (toUpperCase c) - 65"

text \<open>The defining equations that evaluate the decoders on a given input.\<close>

lemmas eval_defs = js_def decodeBase8_def decodeBase12_def line8_def line12_def tokens8_def trim_def isWhite_def
  walk8.simps walk12.simps at_def falsy_def lookup_def lookup_key_def noteMap_def objectPrototypeKeys_def
  pair_value_def fromCharCode_def Let_def scale_config_def slash_config_def
  spaced_config_def

lemmas encode_eval_defs = encodeBase8_def encode_char_def isLetter_def toUpperCase_def
  charCodeAt0_def

section \<open>Code units and octal digits\<close>

lemma unat_of_nat16: "n < 65536 \<Longrightarrow> unat (of_nat n :: 16 word) = n"
  by (simp add: unat_of_nat)

lemma unat_digit_char: "d < 8 \<Longrightarrow> unat (digit_char d) = 48 + d"
  unfolding digit_char_def by (rule unat_of_nat16) simp

lemma parseInt8_digit: "d < 8 \<Longrightarrow> parseInt8 (Some (digit_char d)) = Some d"
  by (simp add: parseInt8_def unat_digit_char)

lemma digit_char_0: "digit_char 0 = 48"
  by (simp add: digit_char_def)

lemma toString8_small: "n < 8 \<Longrightarrow> toString8 n = [digit_char n]"
  by (simp add: toString8.simps [of n])

lemma toString8_two:
  assumes "8 \<le> n" "n < 64"
  shows "toString8 n = [digit_char (n div 8), digit_char (n mod 8)]"
proof -
  have "n div 8 < 8" using assms by simp
  then show ?thesis
    using assms by (simp add: toString8.simps [of n] toString8_small)
qed

lemma toString8_three:
  assumes "64 \<le> n" "n < 512"
  shows "toString8 n = [digit_char (n div 64), digit_char (n div 8 mod 8), digit_char (n mod 8)]"
proof -
  have a: "8 \<le> n div 8" "n div 8 < 64" using assms by auto
  have b: "n div 8 div 8 = n div 64" by (simp add: div_mult2_eq)
  show ?thesis
    using assms a by (simp add: toString8.simps [of n] toString8_two b)
qed

lemma padStart3_octal:
  assumes "n < 512"
  shows "padStart3 (toString8 n) =
    [digit_char (n div 64), digit_char (n div 8 mod 8), digit_char (n mod 8)]"
proof -
  consider "n < 8" | "8 \<le> n" "n < 64" | "64 \<le> n" using assms by linarith
  then show ?thesis
  proof cases
    case 1
    then show ?thesis by (simp add: padStart3_def toString8_small numeral_3_eq_3 digit_char_0)
  next
    case 2
    then show ?thesis by (simp add: padStart3_def toString8_two digit_char_0)
  next
    case 3
    then show ?thesis using assms by (simp add: padStart3_def toString8_three)
  qed
qed

lemma octal_loop_step:
  "j < length oct \<Longrightarrow>
   octal_loop config oct j acc =
   octal_loop config oct (Suc (Suc j))
     (acc @ [note_at (config_notes config) (parseInt8 (at oct j)),
             note_at (config_notes config) (parseInt8 (at oct (Suc j)))])"
  by (subst octal_loop.simps) (simp add: Let_def)

lemma octal_loop_end: "\<not> j < length oct \<Longrightarrow> octal_loop config oct j acc = acc"
  by (subst octal_loop.simps) simp

lemma octal_loop_three:
  assumes "a < 8" "b < 8" "c < 8"
  shows "octal_loop config [digit_char a, digit_char b, digit_char c] 0 acc =
    acc @ [at (config_notes config) a, at (config_notes config) b, at (config_notes config) c, None]"
proof -
  let ?oct = "[digit_char a, digit_char b, digit_char c]"
  let ?ns = "config_notes config"
  have "octal_loop config ?oct 0 acc =
      octal_loop config ?oct (Suc (Suc 0)) (acc @ [at ?ns a, at ?ns b])"
    using assms
    by (simp add: octal_loop_step [of 0 ?oct] at_def [of ?oct] parseInt8_digit note_at_def)
  also have "\<dots> = octal_loop config ?oct (Suc (Suc (Suc (Suc 0))))
      (acc @ [at ?ns a, at ?ns b, at ?ns c, None])"
    using assms
    by (simp add: octal_loop_step [of "Suc (Suc 0)" ?oct] at_def [of ?oct] parseInt8_digit
          note_at_def parseInt8_def [of None])
  also have "\<dots> = acc @ [at ?ns a, at ?ns b, at ?ns c, None]"
    by (rule octal_loop_end) simp
  finally show ?thesis .
qed

section \<open>The octal branch of the encoder\<close>

text \<open>
  Claim C3. A unit that is no space, no newline and no ASCII letter, with a code below 512,
  has an octal string of exactly three digits. The encoder reads it two units at a time:
  the first chunk is the pair of the first two digits, the last chunk is the third digit
  alone, whose companion index 3 is past the end. So \<open>encodeBase8\<close> emits four
  entries, and the fourth, \<open>notes[parseInt(undefined, 8)]\<close>, is \<open>undefined\<close>.
\<close>

theorem encodeBase8_octal_dangling:
  assumes "ch \<noteq> chr_sp" "ch \<noteq> chr_nl" "\<not> isLetter ch" "charCodeAt0 ch < 512"
  shows "encodeBase8 config [ch] =
    [at (config_notes config) (charCodeAt0 ch div 64),
     at (config_notes config) (charCodeAt0 ch div 8 mod 8),
     at (config_notes config) (charCodeAt0 ch mod 8),
     None]"
proof -
  let ?n = "charCodeAt0 ch"
  have "?n div 64 < 8" "?n div 8 mod 8 < 8" "?n mod 8 < 8"
    using assms(4) by simp_all
  then show ?thesis
    using assms
    by (simp add: encodeBase8_def encode_char_def padStart3_octal octal_loop_three)
qed

theorem encodeBase8_octal_dangling_witness:
  "(33 :: jschar) \<noteq> chr_sp \<and> (33 :: jschar) \<noteq> chr_nl \<and> \<not> isLetter 33 \<and> charCodeAt0 33 < 512 \<and>
   encodeBase8 scale_config (js ''!'') = [Some (js ''C''), Some (js ''G''), Some (js ''D''), None]"
  using encodeBase8_octal_dangling [of 33 scale_config]
  by (simp add: isLetter_def charCodeAt0_def scale_config_def js_def at_def)

section \<open>Lines of the input\<close>

lemma split_nl_nonempty: "split_nl s \<noteq> []"
  by (induction s) (auto split: list.splits)

lemma split_nl_no_nl: "chr_nl \<notin> set s \<Longrightarrow> split_nl s = [s]"
  by (induction s) auto

lemma split_nl_append: "split_nl (a @ chr_nl # b) = split_nl a @ split_nl b"
proof (induction a)
  case Nil
  then show ?case by simp
next
  case (Cons c a)
  then show ?case
    using split_nl_nonempty [of a] by (cases "split_nl a") auto
qed

lemma length_split_nl: "length (split_nl s) = Suc (count_list s chr_nl)"
  by (induction s) (auto split: list.splits simp: split_nl_nonempty)

section \<open>The walk of decodeBase8 and the output of its lines\<close>

lemma walk8_dec8: "walk8 own toks i out = out @ dec8 own (drop i toks)"
proof (induction own toks i out rule: walk8.induct)
  case (1 own tokens i out)
  show ?case
  proof (cases "i < length tokens")
    case False
    then show ?thesis by (simp add: walk8.simps [of own tokens i out])
  next
    case True
    note i = True
    show ?thesis
    proof (cases "Suc i < length tokens")
      case False
      with i have d: "drop i tokens = [tokens ! i]"
        by (metis Cons_nth_drop_Suc drop_all not_less)
      from False i show ?thesis
        using 1
        by (simp add: walk8.simps [of own tokens i out] d at_def falsy_def)
    next
      case True
      with i have d: "drop i tokens = tokens ! i # tokens ! Suc i # drop (Suc (Suc i)) tokens"
        by (simp add: Cons_nth_drop_Suc)
      have d1: "drop (Suc i) tokens = tokens ! Suc i # drop (Suc (Suc i)) tokens"
        using True by (simp add: Cons_nth_drop_Suc)
      from True i show ?thesis
        using 1
        by (simp add: walk8.simps [of own tokens i out] d d1 at_def falsy_def pair8_def
              split: option.splits)
    qed
  qed
qed

lemma line8_dec8:
  "line8 own line li out = (if li > 0 then out @ [chr_nl] else out) @ dec8 own (tokens8 line)"
  by (simp add: line8_def walk8_dec8)

lemma lines8_Suc:
  "lines8 own ls (Suc li) out = out @ concat (map (\<lambda>l. chr_nl # dec8 own (tokens8 l)) ls)"
  by (induction ls arbitrary: li out) (simp_all add: line8_dec8)

lemma decodeBase8_lines:
  "decodeBase8 config s =
   dec8 (noteMap config) (tokens8 (hd (split_nl s))) @
   concat (map (\<lambda>l. chr_nl # dec8 (noteMap config) (tokens8 l)) (tl (split_nl s)))"
  using split_nl_nonempty [of s]
  by (cases "split_nl s") (simp_all add: decodeBase8_def Let_def lines8_Suc line8_dec8)

lemma decodeBase8_append:
  "decodeBase8 config (a @ chr_nl # b) = decodeBase8 config a @ chr_nl # decodeBase8 config b"
proof -
  obtain l ls where a: "split_nl a = l # ls"
    using split_nl_nonempty [of a] by (cases "split_nl a") auto
  obtain m ms where b: "split_nl b = m # ms"
    using split_nl_nonempty [of b] by (cases "split_nl b") auto
  show ?thesis
    by (simp add: decodeBase8_lines split_nl_append a b)
qed

lemma letter_not_nl: "val < 26 \<Longrightarrow> fromCharCode (Some (65 + val)) \<noteq> chr_nl"
proof
  assume v: "val < 26" and "fromCharCode (Some (65 + val)) = chr_nl"
  then have "unat (of_nat (65 + val) :: 16 word) = unat (10 :: 16 word)"
    by (simp add: fromCharCode_def del: of_nat_add)
  moreover have "unat (of_nat (65 + val) :: 16 word) = 65 + val"
    using v by (intro unat_of_nat16) simp
  ultimately show False by simp
qed

lemma pair8_not_nl: "pair8 own t u \<noteq> chr_nl"
  by (auto simp: pair8_def letter_not_nl split: option.splits)

lemma dec8_no_nl: "count_list (dec8 own toks) chr_nl = 0"
  by (induction own toks rule: dec8.induct) (simp_all add: pair8_not_nl)

lemma count_list_concat_lines:
  "count_list (concat (map (\<lambda>l. chr_nl # dec8 own (tokens8 l)) ls)) chr_nl = length ls"
  by (induction ls) (simp_all add: dec8_no_nl)

text \<open>
  Claim C9. \<open>decodeBase8\<close> decodes the lines of the input one by one and joins their
  outputs with newlines: the output of the first line comes as it is, and every later line
  is preceded by exactly one newline. No line output holds a newline, so the output has as
  many newlines as the input.
\<close>

theorem decodeBase8_newlines:
  "\<exists>l ls. split_nl s = l # ls \<and>
     decodeBase8 config s =
       line8 (noteMap config) l 0 [] @
       concat (map (\<lambda>x. chr_nl # line8 (noteMap config) x 0 []) ls) \<and>
     count_list (decodeBase8 config s) chr_nl = count_list s chr_nl"
proof -
  obtain l ls where a: "split_nl s = l # ls"
    using split_nl_nonempty [of s] by (cases "split_nl s") auto
  have n: "length ls = count_list s chr_nl"
    using length_split_nl [of s] a by simp
  have d: "decodeBase8 config s =
      dec8 (noteMap config) (tokens8 l) @
      concat (map (\<lambda>x. chr_nl # dec8 (noteMap config) (tokens8 x)) ls)"
    by (simp add: decodeBase8_lines a)
  have c: "count_list (decodeBase8 config s) chr_nl = count_list s chr_nl"
    by (simp add: d dec8_no_nl count_list_concat_lines n)
  show ?thesis
    using a d c by (simp add: line8_dec8)
qed

section \<open>Reads of the note map\<close>

lemma noteMap_fill_notin: "t \<notin> set ns \<Longrightarrow> noteMap_fill ns i own t = own t"
  by (induction ns arbitrary: i own) auto

lemma noteMap_fill_nth:
  "distinct ns \<Longrightarrow> k < length ns \<Longrightarrow> ns ! k \<noteq> js ''__proto__'' \<Longrightarrow>
   noteMap_fill ns i own (ns ! k) = Some (i + k)"
proof (induction ns arbitrary: i own k)
  case Nil
  then show ?case by simp
next
  case (Cons n ns)
  show ?case
  proof (cases k)
    case 0
    with Cons.prems show ?thesis by (simp add: noteMap_fill_notin)
  next
    case (Suc j)
    with Cons.prems Cons.IH [of j "Suc i"] show ?thesis by simp
  qed
qed

lemma lookup_known:
  "distinct (config_notes config) \<Longrightarrow> k < length (config_notes config) \<Longrightarrow>
   config_notes config ! k \<noteq> js ''__proto__'' \<Longrightarrow>
   lookup (noteMap config) (Some (config_notes config ! k)) = Some (Num k)"
  by (simp add: lookup_def lookup_key_def noteMap_def noteMap_fill_nth)

lemma lookup_unknown:
  "t \<notin> set (config_notes config) \<Longrightarrow> lookup (noteMap config) (Some t) \<noteq> Some (Num n)"
  by (simp add: lookup_def lookup_key_def noteMap_def noteMap_fill_notin)

lemma pair8_unknown:
  assumes "t \<notin> set (config_notes config) \<or> u \<notin> set (config_notes config)"
  shows "pair8 (noteMap config) t u = chr_qm"
proof -
  have "pair_value 8 h l = None"
    if "lookup (noteMap config) (Some t) = Some h" "lookup (noteMap config) (Some u) = Some l"
    for h l
    using assms that lookup_unknown [of t config] lookup_unknown [of u config]
    by (cases h; cases l) (auto simp: pair_value_def)
  then show ?thesis
    by (auto simp: pair8_def split: option.splits)
qed

lemma tokens8_nonempty: "t \<in> set (tokens8 line) \<Longrightarrow> t \<noteq> []"
  by (auto simp: tokens8_def)

section \<open>Malformed input of decodeBase8\<close>

text \<open>
  Claim C5. When the walk over the tokens of a line stands at a token that is not \<open>/\<close>
  and has no token after it, the loop ends there with exactly one \<open>?\<close> added to the
  output so far. The lines after it are decoded as they would be on their own.
\<close>

theorem decodeBase8_odd_trailing_token:
  assumes "chr_nl \<notin> set line" and "tokens = tokens8 line"
    and "i < length tokens" and "tokens ! i \<noteq> js ''/''" and "Suc i = length tokens"
  shows "walk8 (noteMap config) tokens i out = out @ [chr_qm] \<and>
    decodeBase8 config (line @ chr_nl # rest) =
      walk8 (noteMap config) tokens 0 [] @ chr_nl # decodeBase8 config rest"
proof -
  from assms(3,5) have d: "drop i tokens = [tokens ! i]"
    by (metis Cons_nth_drop_Suc drop_all order_refl)
  have 1: "walk8 (noteMap config) tokens i out = out @ [chr_qm]"
    using assms(4) by (simp add: walk8_dec8 d)
  have "decodeBase8 config line = walk8 (noteMap config) tokens 0 []"
    using assms(1,2) by (simp add: decodeBase8_lines split_nl_no_nl walk8_dec8)
  then have 2: "decodeBase8 config (line @ chr_nl # rest) =
      walk8 (noteMap config) tokens 0 [] @ chr_nl # decodeBase8 config rest"
    by (simp add: decodeBase8_append)
  from 1 2 show ?thesis by simp
qed

theorem decodeBase8_odd_trailing_token_witness:
  "chr_nl \<notin> set (js ''C H D'') \<and>
   2 < length (tokens8 (js ''C H D'')) \<and>
   tokens8 (js ''C H D'') ! 2 \<noteq> js ''/'' \<and>
   Suc 2 = length (tokens8 (js ''C H D'')) \<and>
   walk8 (noteMap scale_config) (tokens8 (js ''C H D'')) 2 (js ''H'') = js ''H?'' \<and>
   decodeBase8 scale_config (js ''C H D'' @ chr_nl # js ''D C'') = js ''H?'' @ chr_nl # js ''I''"
  using decodeBase8_odd_trailing_token
    [of "js ''C H D''" "tokens8 (js ''C H D'')" 2 scale_config "js ''H''" "js ''D C''"]
  by (simp add: eval_defs)

text \<open>
  Claim C6. When the walk stands at a pair of tokens whose first is not \<open>/\<close> and one of
  which is no note of the configuration, exactly one \<open>?\<close> is added and the walk goes on
  two tokens further in the same line.
\<close>

theorem decodeBase8_unknown_symbol:
  assumes "tokens = tokens8 line" and "Suc i < length tokens" and "tokens ! i \<noteq> js ''/''"
    and "tokens ! i \<notin> set (config_notes config) \<or> tokens ! Suc i \<notin> set (config_notes config)"
  shows "walk8 (noteMap config) tokens i out =
    walk8 (noteMap config) tokens (i + 2) (out @ [chr_qm])"
proof -
  from assms(2) have d: "drop i tokens = tokens ! i # tokens ! Suc i # drop (Suc (Suc i)) tokens"
    by (simp add: Cons_nth_drop_Suc Suc_lessD)
  have "tokens ! i \<in> set tokens" "tokens ! Suc i \<in> set tokens"
    using assms(2) by simp_all
  then have n: "tokens ! i \<noteq> []" "tokens ! Suc i \<noteq> []"
    using assms(1) tokens8_nonempty by blast+
  show ?thesis
    using assms(3,4) n by (simp add: walk8_dec8 d pair8_unknown)
qed

theorem decodeBase8_unknown_symbol_witness:
  "Suc 0 < length (tokens8 (js ''toString C D C'')) \<and>
   tokens8 (js ''toString C D C'') ! 0 \<noteq> js ''/'' \<and>
   tokens8 (js ''toString C D C'') ! 0 \<notin> set (config_notes scale_config) \<and>
   walk8 (noteMap scale_config) (tokens8 (js ''toString C D C'')) 0 [] =
     walk8 (noteMap scale_config) (tokens8 (js ''toString C D C'')) 2 [chr_qm] \<and>
   decodeBase8 scale_config (js ''toString C D C'') = js ''?I''"
  using decodeBase8_unknown_symbol
    [of "tokens8 (js ''toString C D C'')" "js ''toString C D C''" 0 scale_config "[]"]
  by (simp add: eval_defs)

section \<open>Input of white space only\<close>

lemma set_split_nl: "l \<in> set (split_nl s) \<Longrightarrow> set l \<subseteq> set s"
proof (induction s arbitrary: l)
  case Nil
  then show ?case by simp
next
  case (Cons c s)
  then show ?case
    by (cases "split_nl s") (fastforce split: if_splits)+
qed

lemma dropWhile_white: "list_all isWhite s \<Longrightarrow> dropWhile isWhite s = []"
  by (simp add: list_all_iff)

lemma trim_white: "list_all isWhite s \<Longrightarrow> trim s = []"
  by (simp add: trim_def dropWhile_white)

lemma tokens8_white: "list_all isWhite s \<Longrightarrow> tokens8 s = []"
  by (simp add: tokens8_def trim_white)

lemma walk12_dec12: "walk12 config own toks i out = out @ dec12 config own (drop i toks)"
proof (induction config own toks i out rule: walk12.induct)
  case (1 config own tokens i out)
  show ?case
  proof (cases "i < length tokens")
    case False
    then show ?thesis by (simp add: walk12.simps [of config own tokens i out])
  next
    case True
    note i = True
    show ?thesis
    proof (cases "Suc i < length tokens")
      case False
      with i have d: "drop i tokens = [tokens ! i]"
        by (metis Cons_nth_drop_Suc drop_all not_less)
      from False i show ?thesis
        using 1
        by (simp add: walk12.simps [of config own tokens i out] d at_def falsy_def)
    next
      case True
      with i have d: "drop i tokens = tokens ! i # tokens ! Suc i # drop (Suc (Suc i)) tokens"
        by (simp add: Cons_nth_drop_Suc)
      from True i show ?thesis
        using 1
        by (simp add: walk12.simps [of config own tokens i out] d at_def falsy_def pair12_def
              split: option.splits)
    qed
  qed
qed

lemma line12_dec12:
  "line12 config own line li out =
   (if li > 0 then out @ [chr_nl] else out) @ dec12 config own (split_ws (trim line))"
  by (simp add: line12_def walk12_dec12)

lemma decodeBase12_white:
  assumes "list_all isWhite s"
  shows "decodeBase12 config s = js ''?''"
  using assms by (simp add: decodeBase12_def trim_white line12_dec12 js_def)

lemma decodeBase8_white:
  assumes "list_all isWhite s"
  shows "decodeBase8 config s = replicate (count_list s chr_nl) chr_nl"
proof -
  obtain l ls where a: "split_nl s = l # ls"
    using split_nl_nonempty [of s] by (cases "split_nl s") auto
  have w: "list_all isWhite x" if "x \<in> set (split_nl s)" for x
    using assms set_split_nl [OF that] by (auto simp: list_all_iff)
  have l: "tokens8 l = []"
    using w [of l] a by (simp add: tokens8_white)
  have "concat (map (\<lambda>x. chr_nl # dec8 (noteMap config) (tokens8 x)) xs) =
      replicate (length xs) chr_nl" if "set xs \<subseteq> set (split_nl s)" for xs
    using that by (induction xs) (simp_all add: w tokens8_white)
  from this [of ls] a
  have "concat (map (\<lambda>x. chr_nl # dec8 (noteMap config) (tokens8 x)) ls) =
      replicate (length ls) chr_nl" by auto
  moreover have "length ls = count_list s chr_nl"
    using length_split_nl [of s] a by simp
  ultimately show ?thesis
    by (simp add: decodeBase8_lines a l)
qed

text \<open>
  Claim C10, as the code has it. On an input of white space only (the empty input too),
  \<open>decodeBase12\<close> returns \<open>?\<close>: the trimmed input is one empty line, which splits into
  one empty token. \<open>decodeBase8\<close> drops the empty tokens and adds nothing for a line,
  but it still puts a newline before every line but the first: its output is one newline for
  each newline of the input, and the empty string only when the input has no newline.
\<close>

theorem decoders_on_white_input:
  assumes "list_all isWhite s"
  shows "decodeBase12 config s = js ''?'' \<and>
    decodeBase8 config s = replicate (count_list s chr_nl) chr_nl"
  using assms by (simp add: decodeBase12_white decodeBase8_white)

theorem decoders_on_white_input_witness:
  "list_all isWhite (js '' '' @ [chr_nl, 9]) \<and>
   decodeBase12 scale_config (js '' '' @ [chr_nl, 9]) = js ''?'' \<and>
   decodeBase8 scale_config (js '' '' @ [chr_nl, 9]) = [chr_nl]"
  using decoders_on_white_input [of "js '' '' @ [chr_nl, 9]" scale_config]
  by (simp add: js_def isWhite_def)

text \<open>
  The claim as it was stated fails on the input of one newline, which is white space for
  \<open>trim\<close> and \<open>\s\<close>: \<open>decodeBase8\<close> returns the newline, not the empty string.
\<close>

theorem decodeBase8_newline_not_empty:
  "list_all isWhite [chr_nl] \<and>
   decodeBase12 scale_config [chr_nl] = js ''?'' \<and>
   decodeBase8 scale_config [chr_nl] = [chr_nl] \<and>
   decodeBase8 scale_config [chr_nl] \<noteq> []"
  by (simp add: eval_defs)

section \<open>Placeholders of decodeBase12\<close>

lemma lookup_undefined:
  "t \<notin> set (config_notes config) \<Longrightarrow> t \<notin> set objectPrototypeKeys \<Longrightarrow>
   lookup (noteMap config) (Some t) = None"
  by (simp add: lookup_def lookup_key_def noteMap_def noteMap_fill_notin)

lemma pair12_undefined:
  assumes "(t \<notin> set (config_notes config) \<and> t \<notin> set objectPrototypeKeys) \<or>
    (u \<notin> set (config_notes config) \<and> u \<notin> set objectPrototypeKeys)"
  shows "pair12 config (noteMap config) t u = chr_qm"
  using assms lookup_undefined [of t config] lookup_undefined [of u config]
  by (auto simp: pair12_def split: option.splits)

text \<open>
  Claim C2, as the code has it. \<open>decodeBase12\<close> has the same two guards as
  \<open>decodeBase8\<close>. At a last token with no partner it adds one \<open>?\<close> and the loop ends.
  At a pair one of whose tokens is read as \<open>undefined\<close> from the note map (it is no note
  and no property name of \<open>Object.prototype\<close>) it adds one \<open>?\<close> and goes on with the
  next pair.
\<close>

theorem decodeBase12_placeholders:
  "(Suc i = length tokens \<longrightarrow>
      walk12 config (noteMap config) tokens i out = out @ [chr_qm]) \<and>
   (Suc i < length tokens \<and>
    ((tokens ! i \<notin> set (config_notes config) \<and> tokens ! i \<notin> set objectPrototypeKeys) \<or>
     (tokens ! Suc i \<notin> set (config_notes config) \<and> tokens ! Suc i \<notin> set objectPrototypeKeys)) \<longrightarrow>
      walk12 config (noteMap config) tokens i out =
      walk12 config (noteMap config) tokens (i + 2) (out @ [chr_qm]))"
proof (intro conjI impI)
  assume a: "Suc i = length tokens"
  then have d: "drop i tokens = [tokens ! i]"
    by (metis Cons_nth_drop_Suc drop_all lessI order_refl)
  show "walk12 config (noteMap config) tokens i out = out @ [chr_qm]"
    by (simp add: walk12_dec12 d)
next
  assume a: "Suc i < length tokens \<and>
    ((tokens ! i \<notin> set (config_notes config) \<and> tokens ! i \<notin> set objectPrototypeKeys) \<or>
     (tokens ! Suc i \<notin> set (config_notes config) \<and> tokens ! Suc i \<notin> set objectPrototypeKeys))"
  then have d: "drop i tokens = tokens ! i # tokens ! Suc i # drop (Suc (Suc i)) tokens"
    by (simp add: Cons_nth_drop_Suc Suc_lessD)
  show "walk12 config (noteMap config) tokens i out =
      walk12 config (noteMap config) tokens (i + 2) (out @ [chr_qm])"
    using a by (simp add: walk12_dec12 d pair12_undefined)
qed

theorem decodeBase12_placeholders_witness:
  "Suc 2 = length (map js [''G'', ''D'', ''C'']) \<and>
   walk12 scale_config (noteMap scale_config) (map js [''G'', ''D'', ''C'']) 2 (js ''!'') = js ''!?'' \<and>
   Suc 0 < length (map js [''X'', ''D'', ''G'', ''D'']) \<and>
   map js [''X'', ''D'', ''G'', ''D''] ! 0 \<notin> set (config_notes scale_config) \<and>
   map js [''X'', ''D'', ''G'', ''D''] ! 0 \<notin> set objectPrototypeKeys \<and>
   walk12 scale_config (noteMap scale_config) (map js [''X'', ''D'', ''G'', ''D'']) 0 [] =
     walk12 scale_config (noteMap scale_config) (map js [''X'', ''D'', ''G'', ''D'']) 2 [chr_qm] \<and>
   decodeBase12 scale_config (js ''X D G D'') = js ''?!''"
  using decodeBase12_placeholders [of 2 "map js [''G'', ''D'', ''C'']" scale_config "js ''!''"]
    decodeBase12_placeholders [of 0 "map js [''X'', ''D'', ''G'', ''D'']" scale_config "[]"]
  by (simp add: eval_defs)

text \<open>
  The claim as it was stated, that \<open>decodeBase12\<close> emits no \<open>?\<close> in these cases,
  fails: a missing partner and an unknown symbol each give a \<open>?\<close>, as in
  \<open>decodeBase8\<close>.
\<close>

theorem decodeBase12_emits_placeholder:
  "decodeBase12 scale_config (js ''G D C'') = js ''!?'' \<and>
   js ''X'' \<notin> set (config_notes scale_config) \<and>
   decodeBase12 scale_config (js ''X D'') = js ''?'' \<and>
   decodeBase8 scale_config (js ''X D'') = js ''?''"
  by (simp add: eval_defs)

section \<open>A token that the note map inherits\<close>

text \<open>
  Claim C4 says that both decoders turn every malformed unit into a \<open>?\<close>. The test
  \<open>noteMap[tok] === undefined\<close> of \<open>decodeBase12\<close> misses the tokens that name a
  property of \<open>Object.prototype\<close>: \<open>toString\<close> is no note, yet its read is a function,
  the code is NaN and the output is the unit 0 where \<open>decodeBase8\<close> gives \<open>?\<close>.
\<close>

theorem decodeBase12_inherited_key:
  "distinct (config_notes scale_config) \<and>
   js ''toString'' \<notin> set (config_notes scale_config) \<and>
   decodeBase12 scale_config (js ''toString toString'') = [0] \<and>
   decodeBase8 scale_config (js ''toString toString'') = js ''?''"
  by (simp add: eval_defs)

section \<open>Tokens of a joined string\<close>

lemma isWhite_sp: "isWhite chr_sp"
  by (simp add: isWhite_def)

lemma isWhite_nl: "isWhite chr_nl"
  by (simp add: isWhite_def)

lemma js_space: "js '' '' = [chr_sp]"
  by (simp add: js_def)

lemma split_ws_plain: "list_all (\<lambda>c. \<not> isWhite c) t \<Longrightarrow> split_ws t = [t]"
  by (induction t) auto

lemma dropWhile_hd: "r \<noteq> [] \<Longrightarrow> \<not> P (hd r) \<Longrightarrow> dropWhile P r = r"
  by (cases r) auto

lemma split_ws_sep:
  "list_all (\<lambda>c. \<not> isWhite c) t \<Longrightarrow> r \<noteq> [] \<Longrightarrow> \<not> isWhite (hd r) \<Longrightarrow>
   split_ws (t @ chr_sp # r) = t # split_ws r"
  by (induction t) (simp_all add: isWhite_sp dropWhile_hd)

lemma joined_tokens:
  assumes "toks \<noteq> []" "list_all plain_token toks"
  shows "join [chr_sp] (map Some toks) \<noteq> [] \<and>
    \<not> isWhite (hd (join [chr_sp] (map Some toks))) \<and>
    \<not> isWhite (last (join [chr_sp] (map Some toks))) \<and>
    chr_nl \<notin> set (join [chr_sp] (map Some toks)) \<and>
    split_ws (join [chr_sp] (map Some toks)) = toks"
  using assms
proof (induction toks rule: list_nonempty_induct)
  case (single t)
  then have "t \<noteq> []" "list_all (\<lambda>c. \<not> isWhite c) t"
    by (simp_all add: plain_token_def)
  moreover from this have "\<not> isWhite (hd t)" "\<not> isWhite (last t)" "chr_nl \<notin> set t"
    using isWhite_nl by (auto simp: list_all_iff)
  ultimately show ?case by (simp add: split_ws_plain)
next
  case (cons t toks)
  let ?r = "join [chr_sp] (map Some toks)"
  from cons.prems have rest: "list_all plain_token toks"
    by simp
  from cons.prems have t: "t \<noteq> []" "list_all (\<lambda>c. \<not> isWhite c) t"
    by (simp_all add: plain_token_def)
  from t have t': "\<not> isWhite (hd t)" "chr_nl \<notin> set t"
    using isWhite_nl by (auto simp: list_all_iff)
  from cons.IH [OF rest] have r: "?r \<noteq> []" "\<not> isWhite (hd ?r)" "\<not> isWhite (last ?r)"
    "chr_nl \<notin> set ?r" "split_ws ?r = toks"
    by simp_all
  obtain u us where toks: "toks = u # us"
    using cons.hyps by (cases toks) auto
  have j: "join [chr_sp] (map Some (t # toks)) = t @ chr_sp # ?r"
    by (simp add: toks)
  show ?case
    unfolding j using t t' r by (simp add: split_ws_sep)
qed

lemma trim_pad:
  assumes "list_all isWhite a" "list_all isWhite b" "s \<noteq> []"
    "\<not> isWhite (hd s)" "\<not> isWhite (last s)"
  shows "trim (a @ s @ b) = s"
proof -
  have 1: "dropWhile isWhite (a @ s @ b) = s @ b"
    using assms(1,3,4) by (cases s) (auto simp: dropWhile_append list_all_iff)
  have 2: "dropWhile isWhite (rev b @ rev s) = rev s"
    using assms(2,3,5) by (cases s rule: rev_cases) (auto simp: dropWhile_append list_all_iff)
  show ?thesis by (simp add: trim_def 1 2)
qed

lemma tokens8_joined:
  assumes "list_all isWhite a" "list_all isWhite b" "list_all plain_token toks"
  shows "tokens8 (a @ join [chr_sp] (map Some toks) @ b) = toks"
proof (cases "toks = []")
  case True
  with assms show ?thesis by (simp add: tokens8_white)
next
  case False
  note j = joined_tokens [OF False assms(3)]
  have "\<forall>t \<in> set toks. t \<noteq> []"
    using assms(3) by (auto simp: list_all_iff plain_token_def)
  then have "filter (\<lambda>t. 0 < length t) toks = toks"
    by (induction toks) auto
  with j show ?thesis
    using assms(1,2) by (simp add: tokens8_def trim_pad)
qed

lemma decodeBase8_joined:
  assumes "list_all plain_token toks"
  shows "decodeBase8 config (join [chr_sp] (map Some toks)) = dec8 (noteMap config) toks"
proof -
  let ?s = "join [chr_sp] (map Some toks)"
  have "chr_nl \<notin> set ?s"
    using joined_tokens [OF _ assms] by (cases "toks = []") auto
  moreover have "tokens8 ?s = toks"
    using tokens8_joined [of "[]" "[]" toks] assms by simp
  ultimately show ?thesis
    by (simp add: decodeBase8_lines split_nl_no_nl)
qed

section \<open>The base-N round trip\<close>

lemma pair12_known:
  assumes "distinct (config_notes config)"
    and "h < length (config_notes config)" "l < length (config_notes config)"
    and "config_notes config ! h \<noteq> js ''__proto__''" "config_notes config ! l \<noteq> js ''__proto__''"
  shows "pair12 config (noteMap config) (config_notes config ! h) (config_notes config ! l) =
    fromCharCode (Some (h * length (config_notes config) + l))"
  using assms by (simp add: pair12_def lookup_known pair_value_def)

lemma decodeBase12_pair:
  assumes "plain_token h" "plain_token l"
  shows "decodeBase12 config (h @ chr_sp # l) = [pair12 config (noteMap config) h l]"
proof -
  have p: "list_all plain_token [h, l]" using assms by simp
  note j = joined_tokens [OF _ p]
  have s: "join [chr_sp] (map Some [h, l]) = h @ chr_sp # l" by simp
  from j have a: "h @ chr_sp # l \<noteq> []" "\<not> isWhite (hd (h @ chr_sp # l))"
    "\<not> isWhite (last (h @ chr_sp # l))" "chr_nl \<notin> set (h @ chr_sp # l)"
    "split_ws (h @ chr_sp # l) = [h, l]"
    unfolding s by simp_all
  have t: "trim (h @ chr_sp # l) = h @ chr_sp # l"
    using trim_pad [of "[]" "[]" "h @ chr_sp # l"] a by simp
  have n: "h \<noteq> []" "l \<noteq> []" using assms by (simp_all add: plain_token_def)
  show ?thesis
    using a(4,5) n
    by (simp add: decodeBase12_def t split_nl_no_nl line12_dec12 del: split_nl.simps)
qed

text \<open>
  Claim C7, as the code has it. Let the notes be distinct, \<open>b\<close> their number and \<open>c\<close>
  a code unit with a code below \<open>b * b\<close>. If the two notes \<open>notes[code div b]\<close> and
  \<open>notes[code mod b]\<close> are not empty, hold no white space and are not \<open>__proto__\<close>,
  then \<open>decodeBase12\<close> on the first, a space and the second returns the one unit
  \<open>c\<close>: it computes \<open>index(hi) * b + index(lo)\<close> and takes the unit of that code.
\<close>

theorem decodeBase12_round_trip:
  assumes "distinct (config_notes config)"
    and "b = length (config_notes config)"
    and "charCodeAt0 c < b * b"
    and "usable_note (config_notes config ! (charCodeAt0 c div b))"
    and "usable_note (config_notes config ! (charCodeAt0 c mod b))"
  shows "decodeBase12 config
      (config_notes config ! (charCodeAt0 c div b) @ chr_sp # config_notes config ! (charCodeAt0 c mod b)) =
    [c]"
proof -
  let ?n = "charCodeAt0 c"
  have b: "0 < b" using assms(3) by (cases b) auto
  have hi: "?n div b < length (config_notes config)"
    using assms(2,3) b by (simp add: less_mult_imp_div_less)
  have lo: "?n mod b < length (config_notes config)"
    using assms(2) b by simp
  have "pair12 config (noteMap config) (config_notes config ! (?n div b)) (config_notes config ! (?n mod b)) =
      fromCharCode (Some (?n div b * b + ?n mod b))"
    using pair12_known [OF assms(1) hi lo] assms(2,4,5) by (simp add: usable_note_def)
  also have "\<dots> = c"
    by (simp add: fromCharCode_def charCodeAt0_def del: of_nat_add of_nat_mult)
  finally have p: "pair12 config (noteMap config) (config_notes config ! (?n div b))
      (config_notes config ! (?n mod b)) = c" .
  have "decodeBase12 config
      (config_notes config ! (?n div b) @ chr_sp # config_notes config ! (?n mod b)) =
      [pair12 config (noteMap config) (config_notes config ! (?n div b))
        (config_notes config ! (?n mod b))]"
    using assms(4,5) by (intro decodeBase12_pair) (simp_all add: usable_note_def)
  then show ?thesis
    by (simp only: p)
qed

theorem decodeBase12_round_trip_witness:
  "distinct (config_notes scale_config) \<and>
   8 = length (config_notes scale_config) \<and>
   charCodeAt0 33 < 8 * 8 \<and>
   usable_note (config_notes scale_config ! (charCodeAt0 33 div 8)) \<and>
   usable_note (config_notes scale_config ! (charCodeAt0 33 mod 8)) \<and>
   decodeBase12 scale_config (js ''G D'') = js ''!''"
proof -
  have 1: "distinct (config_notes scale_config)"
    by (simp add: scale_config_def js_def)
  have 2: "8 = length (config_notes scale_config)"
    by (simp add: scale_config_def)
  have 3: "charCodeAt0 33 < 8 * 8"
    by (simp add: charCodeAt0_def)
  have 4: "usable_note (config_notes scale_config ! (charCodeAt0 33 div 8))"
    by (simp add: scale_config_def js_def charCodeAt0_def usable_note_def plain_token_def
          isWhite_def)
  have 5: "usable_note (config_notes scale_config ! (charCodeAt0 33 mod 8))"
    by (simp add: scale_config_def js_def charCodeAt0_def usable_note_def plain_token_def
          isWhite_def)
  have s: "config_notes scale_config ! (charCodeAt0 33 div 8) @ chr_sp #
      config_notes scale_config ! (charCodeAt0 33 mod 8) = js ''G D''"
    by (simp add: scale_config_def js_def charCodeAt0_def)
  have e: "js ''!'' = [33]"
    by (simp add: js_def)
  have "decodeBase12 scale_config (js ''G D'') = js ''!''"
    using decodeBase12_round_trip [OF 1 2 3 4 5] unfolding s e .
  with 1 2 3 4 5 show ?thesis by (simp only: simp_thms)
qed

text \<open>
  The claim as it was stated, for every configuration of distinct notes, fails when a note
  is written with a space: its two words come back as two unknown tokens.
\<close>

theorem decodeBase12_spaced_note:
  "distinct (config_notes spaced_config) \<and>
   charCodeAt0 0 < length (config_notes spaced_config) * length (config_notes spaced_config) \<and>
   config_notes spaced_config ! (charCodeAt0 0 div 2) @ chr_sp #
     config_notes spaced_config ! (charCodeAt0 0 mod 2) = js ''C sharp C sharp'' \<and>
   decodeBase12 spaced_config (js ''C sharp C sharp'') = js ''??'' \<and>
   decodeBase12 spaced_config (js ''C sharp C sharp'') \<noteq> [0]"
  by (simp add: eval_defs charCodeAt0_def)

section \<open>The letter branch of the encoder and its decoding\<close>

lemma toUpperCase_range:
  assumes "isLetter c"
  shows "65 \<le> unat (toUpperCase c) \<and> unat (toUpperCase c) \<le> 90"
proof (cases "97 \<le> unat c \<and> unat c \<le> 122")
  case True
  then have "unat c - 32 < 65536" by arith
  then have "unat (of_nat (unat c - 32) :: jschar) = unat c - 32"
    by (rule unat_of_nat16)
  with True show ?thesis unfolding toUpperCase_def Let_def by (simp only: if_True) arith
next
  case False
  from assms have "(65 \<le> unat c \<and> unat c \<le> 90) \<or> (97 \<le> unat c \<and> unat c \<le> 122)"
    by (simp add: isLetter_def Let_def)
  with False have "65 \<le> unat c \<and> unat c \<le> 90" by blast
  moreover have "toUpperCase c = c"
    using False by (simp add: toUpperCase_def Let_def)
  ultimately show ?thesis by (simp only:)
qed

lemma letter_index_less: "isLetter c \<Longrightarrow> letter_index c < 26"
  using toUpperCase_range [of c] unfolding letter_index_def charCodeAt0_def by arith

lemma letter_unit: 
  assumes "isLetter c"
  shows "fromCharCode (Some (65 + letter_index c)) = toUpperCase c"
proof -
  have "65 + letter_index c = unat (toUpperCase c)"
    using toUpperCase_range [OF assms] unfolding letter_index_def charCodeAt0_def by arith
  then show ?thesis
    by (simp add: fromCharCode_def del: of_nat_add)
qed

lemma letter_not_sentinel: "isLetter c \<Longrightarrow> c \<noteq> chr_sp \<and> c \<noteq> chr_nl"
  by (auto simp: isLetter_def)

lemma encode_char_letter:
  assumes "isLetter c" "8 \<le> length (config_notes config)"
  shows "encode_char config c acc =
    acc @ [Some (config_notes config ! (letter_index c div 8)),
           Some (config_notes config ! (letter_index c mod 8))]"
proof -
  let ?k = "letter_index c"
  have i: "int (charCodeAt0 (toUpperCase c)) - 65 = int ?k"
    using toUpperCase_range [OF assms(1)] unfolding letter_index_def charCodeAt0_def by arith
  have k: "?k < 26" by (rule letter_index_less [OF assms(1)])
  have d: "nat (int ?k div 8) = ?k div 8" "nat (int ?k mod 8) = ?k mod 8"
    by (simp_all add: nat_div_distrib nat_mod_distrib)
  have "?k div 8 < 8" "?k mod 8 < 8" using k by simp_all
  then have a: "at (config_notes config) (?k div 8) = Some (config_notes config ! (?k div 8))"
    "at (config_notes config) (?k mod 8) = Some (config_notes config ! (?k mod 8))"
    using assms(2) by (simp_all add: at_def)
  show ?thesis
    using assms(1) letter_not_sentinel [OF assms(1)] k
    unfolding encode_char_def i Let_def d a by simp
qed

lemma encode_loop_letters:
  assumes "8 \<le> length (config_notes config)"
  shows "list_all isLetter s \<Longrightarrow>
    encode_loop config s acc =
    acc @ map Some (concat (map (\<lambda>c. [config_notes config ! (letter_index c div 8),
                                      config_notes config ! (letter_index c mod 8)]) s))"
  by (induction s arbitrary: acc) (simp_all add: encode_char_letter [OF _ assms])

lemma pair8_known:
  assumes "distinct (config_notes config)"
    and "h < length (config_notes config)" "l < length (config_notes config)"
    and "config_notes config ! h \<noteq> js ''__proto__''" "config_notes config ! l \<noteq> js ''__proto__''"
    and "h * 8 + l < 26"
  shows "pair8 (noteMap config) (config_notes config ! h) (config_notes config ! l) =
    fromCharCode (Some (65 + (h * 8 + l)))"
  using assms by (simp add: pair8_def lookup_known pair_value_def)

lemma usable_first_eight:
  assumes "8 \<le> length ns" "list_all usable_note8 (take 8 ns)" "k < 8"
  shows "usable_note8 (ns ! k)"
proof -
  have "k < length (take 8 ns)" using assms(1,3) by simp
  then have "usable_note8 (take 8 ns ! k)"
    using assms(2) by (simp add: list_all_length)
  then show ?thesis using assms(3) by simp
qed

lemma dec8_letters:
  assumes "distinct (config_notes config)" "8 \<le> length (config_notes config)"
    and "list_all usable_note8 (take 8 (config_notes config))"
  shows "list_all isLetter s \<Longrightarrow>
    dec8 (noteMap config)
      (concat (map (\<lambda>c. [config_notes config ! (letter_index c div 8),
                          config_notes config ! (letter_index c mod 8)]) s)) =
    map toUpperCase s"
proof (induction s)
  case Nil
  then show ?case by simp
next
  case (Cons c s)
  let ?k = "letter_index c"
  let ?h = "config_notes config ! (?k div 8)"
  let ?l = "config_notes config ! (?k mod 8)"
  from Cons.prems have c: "isLetter c" and s: "list_all isLetter s" by simp_all
  have k: "?k < 26" by (rule letter_index_less [OF c])
  then have b: "?k div 8 < 8" "?k mod 8 < 8" by simp_all
  have u: "usable_note8 ?h" "usable_note8 ?l"
    using usable_first_eight [OF assms(2,3)] b by simp_all
  then have n: "?h \<noteq> []" "?l \<noteq> []" "?h \<noteq> js ''/''"
    "?h \<noteq> js ''__proto__''" "?l \<noteq> js ''__proto__''"
    by (simp_all add: usable_note8_def usable_note_def plain_token_def)
  have "pair8 (noteMap config) ?h ?l = fromCharCode (Some (65 + (?k div 8 * 8 + ?k mod 8)))"
    using pair8_known [OF assms(1) _ _ n(4,5)] b assms(2) k by simp
  then have p: "pair8 (noteMap config) ?h ?l = toUpperCase c"
    by (simp add: letter_unit [OF c])
  show ?case
    using n(1,2,3) Cons.IH [OF s] by (simp add: p)
qed

lemma letters_plain:
  assumes "8 \<le> length (config_notes config)"
    and "list_all usable_note8 (take 8 (config_notes config))"
  shows "list_all isLetter s \<Longrightarrow>
    list_all plain_token
      (concat (map (\<lambda>c. [config_notes config ! (letter_index c div 8),
                          config_notes config ! (letter_index c mod 8)]) s))"
proof (induction s)
  case Nil
  then show ?case by simp
next
  case (Cons c s)
  from Cons.prems have c: "isLetter c" and s: "list_all isLetter s" by simp_all
  have "letter_index c < 26" by (rule letter_index_less [OF c])
  then have b: "letter_index c div 8 < 8" "letter_index c mod 8 < 8" by simp_all
  have "usable_note8 (config_notes config ! (letter_index c div 8))"
    "usable_note8 (config_notes config ! (letter_index c mod 8))"
    using usable_first_eight [OF assms] b by simp_all
  then show ?case
    using Cons.IH [OF s] by (simp add: usable_note8_def usable_note_def)
qed

lemma round_trip_letters:
  assumes "distinct (config_notes config)" "8 \<le> length (config_notes config)"
    and "list_all usable_note8 (take 8 (config_notes config))"
    and "list_all isLetter s"
  shows "decodeBase8 config (join (js '' '') (encodeBase8 config s)) = map toUpperCase s"
  using assms
  by (simp add: encodeBase8_def encode_loop_letters js_space decodeBase8_joined letters_plain
        dec8_letters)

lemma js_HI: "js ''HI'' = [72, 73]"
  by (simp add: js_def)

lemma letter_index_H: "letter_index 72 = 7" "letter_index 73 = 8" "letter_index 65 = 0"
  "letter_index 66 = 1"
  by (simp_all add: letter_index_def toUpperCase_def charCodeAt0_def)

lemma isLetter_AB: "isLetter 72" "isLetter 73" "isLetter 65" "isLetter 66"
  by (simp_all add: isLetter_def)

text \<open>
  Claim C1, as the code has it. Let the notes be distinct and at least eight, and let each
  of the first eight be a non-empty string without white space, other than \<open>/\<close> and
  \<open>__proto__\<close>. Then for every string \<open>s\<close> of ASCII letters, \<open>decodeBase8\<close> on the
  tokens of \<open>encodeBase8\<close> joined by spaces returns \<open>s\<close> in upper case. In particular
  \<open>HI\<close> is encoded as \<open>notes[0]\<close>, \<open>notes[7]\<close>, \<open>notes[1]\<close>, \<open>notes[0]\<close>, and
  these four symbols are decoded as \<open>HI\<close>.
\<close>

theorem base8_letters_round_trip:
  assumes "distinct (config_notes config)" and "8 \<le> length (config_notes config)"
    and "list_all usable_note8 (take 8 (config_notes config))"
    and "list_all isLetter s"
  shows "decodeBase8 config (join (js '' '') (encodeBase8 config s)) = map toUpperCase s \<and>
    encodeBase8 config (js ''HI'') =
      [Some (config_notes config ! 0), Some (config_notes config ! 7),
       Some (config_notes config ! 1), Some (config_notes config ! 0)] \<and>
    decodeBase8 config
      (join (js '' '')
        [Some (config_notes config ! 0), Some (config_notes config ! 7),
         Some (config_notes config ! 1), Some (config_notes config ! 0)]) = js ''HI''"
proof -
  have 1: "decodeBase8 config (join (js '' '') (encodeBase8 config s)) = map toUpperCase s"
    by (rule round_trip_letters [OF assms])
  have hi: "list_all isLetter (js ''HI'')"
    by (simp add: js_HI isLetter_AB)
  have 2: "encodeBase8 config (js ''HI'') =
      [Some (config_notes config ! 0), Some (config_notes config ! 7),
       Some (config_notes config ! 1), Some (config_notes config ! 0)]"
    using encode_loop_letters [OF assms(2) hi, of "[]"]
    by (simp add: js_HI encodeBase8_def letter_index_H)
  from round_trip_letters [OF assms(1,2,3) hi]
  have 3: "decodeBase8 config
      (join (js '' '')
        [Some (config_notes config ! 0), Some (config_notes config ! 7),
         Some (config_notes config ! 1), Some (config_notes config ! 0)]) = js ''HI''"
    unfolding 2 by (simp add: js_HI toUpperCase_def)
  from 1 2 3 show ?thesis by (simp only: simp_thms)
qed

theorem base8_letters_round_trip_witness:
  "distinct (config_notes scale_config) \<and>
   8 \<le> length (config_notes scale_config) \<and>
   list_all usable_note8 (take 8 (config_notes scale_config)) \<and>
   list_all isLetter (js ''Hi'') \<and>
   decodeBase8 scale_config (join (js '' '') (encodeBase8 scale_config (js ''Hi''))) = js ''HI'' \<and>
   encodeBase8 scale_config (js ''HI'') = [Some (js ''C''), Some (js ''H''), Some (js ''D''), Some (js ''C'')] \<and>
   decodeBase8 scale_config (js ''C H D C'') = js ''HI''"
proof -
  have 1: "distinct (config_notes scale_config)"
    by (simp add: scale_config_def js_def)
  have 2: "8 \<le> length (config_notes scale_config)"
    by (simp add: scale_config_def)
  have 3: "list_all usable_note8 (take 8 (config_notes scale_config))"
    by (simp add: scale_config_def js_def usable_note8_def usable_note_def plain_token_def
          isWhite_def)
  have 4: "list_all isLetter (js ''Hi'')"
    by (simp add: js_def isLetter_def)
  have u: "map toUpperCase (js ''Hi'') = js ''HI''"
    by (simp add: js_def toUpperCase_def)
  have n: "config_notes scale_config ! 0 = js ''C''" "config_notes scale_config ! 7 = js ''H''"
    "config_notes scale_config ! 1 = js ''D''"
    by (simp_all add: scale_config_def)
  have j: "join (js '' '') [Some (js ''C''), Some (js ''H''), Some (js ''D''), Some (js ''C'')] =
      js ''C H D C''"
    by (simp add: js_def)
  from base8_letters_round_trip [OF 1 2 3 4]
  have "decodeBase8 scale_config (join (js '' '') (encodeBase8 scale_config (js ''Hi''))) = js ''HI'' \<and>
    encodeBase8 scale_config (js ''HI'') = [Some (js ''C''), Some (js ''H''), Some (js ''D''), Some (js ''C'')] \<and>
    decodeBase8 scale_config (js ''C H D C'') = js ''HI''"
    unfolding u n j .
  with 1 2 3 4 show ?thesis by (simp only: simp_thms)
qed

text \<open>
  The claim as it was stated, for every configuration of at least eight distinct notes,
  fails when a note is the token \<open>/\<close> of the space: the letter A is encoded as two such
  tokens and decoded as two spaces.
\<close>

theorem base8_slash_note_letters:
  "distinct (config_notes slash_config) \<and>
   8 \<le> length (config_notes slash_config) \<and>
   list_all isLetter (js ''A'') \<and>
   encodeBase8 slash_config (js ''A'') = [Some (js ''/''), Some (js ''/'')] \<and>
   decodeBase8 slash_config (join (js '' '') (encodeBase8 slash_config (js ''A''))) = js ''  '' \<and>
   map toUpperCase (js ''A'') = js ''A'' \<and>
   decodeBase8 slash_config (join (js '' '') (encodeBase8 slash_config (js ''A''))) \<noteq>
     map toUpperCase (js ''A'')"
  by (simp add: eval_defs encode_eval_defs)

section \<open>Spaces and newlines\<close>

lemma js_A_B: "js ''A B'' = [65, chr_sp, 66]" "js ''A'' = [65]" "js ''B'' = [66]"
  "js ''/'' = [chr_slash]"
  by (simp_all add: js_def)

lemma encode_char_space: "encode_char config chr_sp acc = acc @ [Some (js ''/'')]"
  by (simp add: encode_char_def)

lemma encode_char_newline: "encode_char config chr_nl acc = acc @ [Some [chr_nl]]"
  by (simp add: encode_char_def)

lemma plain_slash: "plain_token (js ''/'')"
  by (simp add: plain_token_def js_def isWhite_def)

lemma decodeBase8_padded:
  assumes "list_all isWhite a" "list_all isWhite b" "chr_nl \<notin> set a" "chr_nl \<notin> set b"
    and "list_all plain_token toks"
  shows "decodeBase8 config (a @ join [chr_sp] (map Some toks) @ b) = dec8 (noteMap config) toks"
proof -
  let ?s = "join [chr_sp] (map Some toks)"
  have "chr_nl \<notin> set ?s"
    using joined_tokens [OF _ assms(5)] by (cases "toks = []") auto
  then have "chr_nl \<notin> set (a @ ?s @ b)"
    using assms(3,4) by simp
  moreover have "tokens8 (a @ ?s @ b) = toks"
    by (rule tokens8_joined [OF assms(1,2,5)])
  ultimately show ?thesis
    by (simp add: decodeBase8_lines split_nl_no_nl del: append_assoc)
qed

lemma dec8_A:
  assumes "distinct (config_notes config)" "8 \<le> length (config_notes config)"
    and "usable_note8 (config_notes config ! 0)"
  shows "dec8 (noteMap config) (config_notes config ! 0 # config_notes config ! 0 # rest) =
    65 # dec8 (noteMap config) rest"
proof -
  have z: "0 < length (config_notes config)" using assms(2) by arith
  have "pair8 (noteMap config) (config_notes config ! 0) (config_notes config ! 0) =
      fromCharCode (Some (65 + (0 * 8 + 0)))"
    using assms(3) by (intro pair8_known assms(1) z) (simp_all add: usable_note8_def usable_note_def)
  then show ?thesis
    using assms(3)
    by (simp add: usable_note8_def usable_note_def plain_token_def fromCharCode_def)
qed

lemma dec8_B:
  assumes "distinct (config_notes config)" "8 \<le> length (config_notes config)"
    and "usable_note8 (config_notes config ! 0)" "usable_note8 (config_notes config ! 1)"
  shows "dec8 (noteMap config) (config_notes config ! 0 # config_notes config ! 1 # rest) =
    66 # dec8 (noteMap config) rest"
proof -
  have z: "0 < length (config_notes config)" "1 < length (config_notes config)"
    using assms(2) by arith+
  have "pair8 (noteMap config) (config_notes config ! 0) (config_notes config ! 1) =
      fromCharCode (Some (65 + (0 * 8 + 1)))"
    using assms(3,4) by (intro pair8_known assms(1) z) (simp_all add: usable_note8_def usable_note_def)
  then show ?thesis
    using assms(3,4)
    by (simp add: usable_note8_def usable_note_def plain_token_def fromCharCode_def)
qed

lemma base8_A_B_fidelity:
  assumes "distinct (config_notes config)" and "8 \<le> length (config_notes config)"
    and "usable_note8 (config_notes config ! 0)" and "usable_note8 (config_notes config ! 1)"
  shows "decodeBase8 config (join (js '' '') (encodeBase8 config (js ''A B''))) = js ''A B'' \<and>
    decodeBase8 config (join (js '' '') (encodeBase8 config (js ''A'' @ chr_nl # js ''B''))) =
      js ''A'' @ chr_nl # js ''B''"
proof -
  let ?n0 = "config_notes config ! 0"
  let ?n1 = "config_notes config ! 1"
  let ?own = "noteMap config"
  have p: "plain_token ?n0" "plain_token ?n1"
    using assms(3,4) by (simp_all add: usable_note8_def usable_note_def)
  note lt = encode_char_letter [OF _ assms(2)]
  have e1: "encodeBase8 config (js ''A B'') =
      map Some [?n0, ?n0, js ''/'', ?n0, ?n1]"
    by (simp add: encodeBase8_def js_A_B lt isLetter_AB letter_index_H encode_char_space)
  have d1: "decodeBase8 config (join [chr_sp] (map Some [?n0, ?n0, js ''/'', ?n0, ?n1])) =
      dec8 ?own [?n0, ?n0, js ''/'', ?n0, ?n1]"
    using p by (intro decodeBase8_joined) (simp add: plain_slash)
  have a: "dec8 ?own [?n0, ?n0] = js ''A''"
    using dec8_A [OF assms(1,2,3), of "[]"] by (simp only: dec8.simps(1) js_A_B)
  have b: "dec8 ?own [?n0, ?n1] = js ''B''"
    using dec8_B [OF assms, of "[]"] by (simp only: dec8.simps(1) js_A_B)
  have "dec8 ?own [?n0, ?n0, js ''/'', ?n0, ?n1] = 65 # dec8 ?own [js ''/'', ?n0, ?n1]"
    by (rule dec8_A [OF assms(1,2,3)])
  also have "\<dots> = 65 # chr_sp # dec8 ?own [?n0, ?n1]"
    by simp
  also have "\<dots> = js ''A B''"
    by (simp only: b js_A_B)
  finally have v1: "dec8 ?own [?n0, ?n0, js ''/'', ?n0, ?n1] = js ''A B''" .
  have 1: "decodeBase8 config (join (js '' '') (encodeBase8 config (js ''A B''))) = js ''A B''"
    unfolding e1 js_space d1 v1 ..
  have e2: "encodeBase8 config (js ''A'' @ chr_nl # js ''B'') =
      map Some [?n0, ?n0, [chr_nl], ?n0, ?n1]"
    by (simp add: encodeBase8_def js_A_B lt isLetter_AB letter_index_H encode_char_newline)
  have j2: "join [chr_sp] (map Some [?n0, ?n0, [chr_nl], ?n0, ?n1]) =
      ([] @ join [chr_sp] (map Some [?n0, ?n0]) @ [chr_sp]) @ chr_nl #
      ([chr_sp] @ join [chr_sp] (map Some [?n0, ?n1]) @ [])"
    by simp
  have l2: "decodeBase8 config ([] @ join [chr_sp] (map Some [?n0, ?n0]) @ [chr_sp]) =
      dec8 ?own [?n0, ?n0]"
    using p by (intro decodeBase8_padded) (simp_all add: isWhite_sp)
  have r2: "decodeBase8 config ([chr_sp] @ join [chr_sp] (map Some [?n0, ?n1]) @ []) =
      dec8 ?own [?n0, ?n1]"
    using p by (intro decodeBase8_padded) (simp_all add: isWhite_sp)
  have 2: "decodeBase8 config (join (js '' '') (encodeBase8 config (js ''A'' @ chr_nl # js ''B''))) =
      js ''A'' @ chr_nl # js ''B''"
    unfolding e2 js_space j2 decodeBase8_append l2 r2 a b ..
  from 1 2 show ?thesis by (simp only: simp_thms)
qed

lemma encode_single_space: "encodeBase8 config (js '' '') = [Some (js ''/'')]"
  by (simp add: encodeBase8_def js_space encode_char_space)

lemma decode_slash_token: "decodeBase8 config (js ''/'') = js '' ''"
proof -
  have "decodeBase8 config (join [chr_sp] (map Some [js ''/''])) = dec8 (noteMap config) [js ''/'']"
    by (intro decodeBase8_joined) (simp add: plain_slash)
  then show ?thesis
    by (simp add: js_space)
qed

text \<open>
  Claim C8, as the code has it. For every configuration a single space is encoded as the
  one token \<open>/\<close>, and the token \<open>/\<close> is decoded as a space. If moreover the notes
  are distinct and at least eight, and \<open>notes[0]\<close> and \<open>notes[1]\<close> are non-empty
  strings without white space, other than \<open>/\<close> and \<open>__proto__\<close>, then encoding
  \<open>A B\<close> and decoding the tokens joined by spaces gives \<open>A B\<close> back, and so for
  \<open>A\<close>, newline, \<open>B\<close>.
\<close>

theorem base8_space_newline_fidelity:
  "(distinct (config_notes config) \<and> 8 \<le> length (config_notes config) \<and>
    usable_note8 (config_notes config ! 0) \<and> usable_note8 (config_notes config ! 1) \<longrightarrow>
      decodeBase8 config (join (js '' '') (encodeBase8 config (js ''A B''))) = js ''A B'' \<and>
      decodeBase8 config (join (js '' '') (encodeBase8 config (js ''A'' @ chr_nl # js ''B''))) =
        js ''A'' @ chr_nl # js ''B'') \<and>
   encodeBase8 config (js '' '') = [Some (js ''/'')] \<and>
   decodeBase8 config (js ''/'') = js '' ''"
proof (intro conjI impI)
  assume a: "distinct (config_notes config) \<and> 8 \<le> length (config_notes config) \<and>
    usable_note8 (config_notes config ! 0) \<and> usable_note8 (config_notes config ! 1)"
  then show "decodeBase8 config (join (js '' '') (encodeBase8 config (js ''A B''))) = js ''A B''"
    using base8_A_B_fidelity [of config] by blast
  from a show "decodeBase8 config
      (join (js '' '') (encodeBase8 config (js ''A'' @ chr_nl # js ''B''))) =
      js ''A'' @ chr_nl # js ''B''"
    using base8_A_B_fidelity [of config] by blast
next
  show "encodeBase8 config (js '' '') = [Some (js ''/'')]"
    by (rule encode_single_space)
next
  show "decodeBase8 config (js ''/'') = js '' ''"
    by (rule decode_slash_token)
qed

text \<open>
  The two parts at work: the round trips with the notes of the scale, and the single space
  with a configuration whose first note is the token \<open>/\<close> itself.
\<close>

theorem base8_space_newline_fidelity_witness:
  "distinct (config_notes scale_config) \<and>
   8 \<le> length (config_notes scale_config) \<and>
   usable_note8 (config_notes scale_config ! 0) \<and>
   usable_note8 (config_notes scale_config ! 1) \<and>
   decodeBase8 scale_config (join (js '' '') (encodeBase8 scale_config (js ''A B''))) = js ''A B'' \<and>
   decodeBase8 scale_config
     (join (js '' '') (encodeBase8 scale_config (js ''A'' @ chr_nl # js ''B''))) =
     js ''A'' @ chr_nl # js ''B'' \<and>
   encodeBase8 scale_config (js '' '') = [Some (js ''/'')] \<and>
   decodeBase8 scale_config (js ''/'') = js '' '' \<and>
   encodeBase8 slash_config (js '' '') = [Some (js ''/'')] \<and>
   decodeBase8 slash_config (js ''/'') = js '' ''"
proof -
  have 1: "distinct (config_notes scale_config)"
    by (simp add: scale_config_def js_def)
  have 2: "8 \<le> length (config_notes scale_config)"
    by (simp add: scale_config_def)
  have 3: "usable_note8 (config_notes scale_config ! 0)"
    by (simp add: scale_config_def js_def usable_note8_def usable_note_def plain_token_def
          isWhite_def)
  have 4: "usable_note8 (config_notes scale_config ! 1)"
    by (simp add: scale_config_def js_def usable_note8_def usable_note_def plain_token_def
          isWhite_def)
  from 1 2 3 4 base8_space_newline_fidelity [of scale_config]
    base8_space_newline_fidelity [of slash_config]
  show ?thesis by blast
qed

text \<open>
  The claim as it was stated, for every configuration of at least eight distinct notes,
  fails when \<open>notes[0]\<close> is the token \<open>/\<close>: the notes of A and B are read as spaces
  and the last one is left without a partner.
\<close>

theorem base8_slash_note_space:
  "distinct (config_notes slash_config) \<and>
   8 \<le> length (config_notes slash_config) \<and>
   encodeBase8 slash_config (js ''A B'') =
     [Some (js ''/''), Some (js ''/''), Some (js ''/''), Some (js ''/''), Some (js ''D'')] \<and>
   decodeBase8 slash_config (join (js '' '') (encodeBase8 slash_config (js ''A B''))) =
     js ''    ?'' \<and>
   decodeBase8 slash_config (join (js '' '') (encodeBase8 slash_config (js ''A B''))) \<noteq>
     js ''A B''"
  by (simp add: eval_defs encode_eval_defs)

end
